theory Spec2Isabelle
  imports Main "HOL-Library.Word"
begin

unbundle bit_operations_syntax

section \<open>Data model\<close>

text \<open>
  The elements of a Python \<open>bytearray\<close> are integers in the range 0..255: a byte is an
  8-bit word, read as a Python integer with \<open>uint\<close>.
\<close>

type_synonym byte = "8 word"

text \<open>
  The dataclass \<open>CANFrame\<close>. Python integers are unbounded, so \<open>id\<close> and \<open>dlc\<close> are
  of type \<open>int\<close>. The field \<open>id\<close> is called \<open>can_id\<close> here (the name of the local variable
  that is stored in it), because \<open>id\<close> is the identity function of HOL. The field
  \<open>timestamp\<close> holds the wall-clock time \<open>time.time()\<close> of the moment of emission; it is a
  reading of the real-time clock and is left out of the record.
\<close>

record CANFrame =
  can_id :: int
  dlc :: int
  data :: "byte list"
  is_extended :: bool

section \<open>Frame decoder\<close>

text \<open>
  One execution of the body of the \<open>while\<close> loop of \<open>_process_buffer\<close>, on a buffer that
  the loop condition has found non-empty. The body either leaves the loop (\<open>break\<close>) with
  the buffer untouched, or falls through to the next test of the loop condition with a
  new buffer, after handing the frames it decoded to every registered callback.

  \<open>buffer.pop(0)\<close> removes the first byte (\<open>tl\<close>), \<open>buffer[n:]\<close> is \<open>drop n\<close>,
  \<open>buffer[:n]\<close> is \<open>take n\<close>, \<open>xs[a:b]\<close> is \<open>drop a (take b xs)\<close> and \<open>xs[-1]\<close> is
  \<open>last xs\<close>. Every index read below is guarded by a length test, as in the source.
\<close>

datatype outcome = Break | Continue "CANFrame list" "byte list"

definition loop_body :: "byte list \<Rightarrow> outcome" where
  "loop_body buffer =
     (if uint (buffer ! 0) \<noteq> 0xAA then Continue [] (tl buffer)
      else if length buffer < 2 then Break
      else if uint (buffer ! 1) = 0x55 then
        (if length buffer \<ge> 20 then Continue [] (drop 20 buffer) else Break)
      else if drop_bit 4 (uint (buffer ! 1)) = 0x0C then
        (let dlc = uint (buffer ! 1) AND 0x0F;
             frame_len = dlc + 5
         in if int (length buffer) \<ge> frame_len then
              (let frame_data = take (nat frame_len) buffer
               in Continue
                    (if uint (last frame_data) = 0x55 then
                       (let is_ext = (uint (frame_data ! 1) AND 0x20 \<noteq> 0);
                            can_id = uint (frame_data ! 2) OR push_bit 8 (uint (frame_data ! 3))
                        in [\<lparr>can_id = can_id, dlc = dlc,
                             data = drop 4 (take (4 + nat dlc) frame_data),
                             is_extended = is_ext\<rparr>])
                     else [])
                    (drop (nat frame_len) buffer))
            else Break)
      else Continue [] (tl buffer))"

text \<open>The length field is the low nibble of the type byte: a number from 0 to 15.\<close>

lemma nibble_range: "0 \<le> uint (t :: byte) AND 0x0F \<and> uint t AND 0x0F \<le> 15"
  by simp

lemma frame_len_pos: "0 < nat ((uint (t :: byte) AND 0x0F) + 5)"
  using nibble_range [of t] by linarith

text \<open>Every pass through the body that does not leave the loop shortens the buffer.\<close>

lemma loop_body_shrinks:
  "buffer \<noteq> [] \<Longrightarrow> loop_body buffer = Continue fs buffer' \<Longrightarrow> length buffer' < length buffer"
  using frame_len_pos [of "buffer ! 1"]
  by (auto simp: loop_body_def Let_def split: if_splits)

text \<open>
  \<open>_process_buffer\<close>: the \<open>while len(self.buffer) > 0\<close> loop. The result is the list of
  frames handed to the callbacks, in order, and the buffer the call leaves behind.
\<close>

function process_buffer :: "byte list \<Rightarrow> CANFrame list \<times> byte list" where
  "process_buffer buffer =
     (if length buffer > 0 then
        (case loop_body buffer of
           Break \<Rightarrow> ([], buffer)
         | Continue fs buffer' \<Rightarrow>
             (let (gs, b) = process_buffer buffer' in (fs @ gs, b)))
      else ([], buffer))"
  by pat_completeness auto
termination
  by (relation "measure length") (auto simp: loop_body_shrinks)

text \<open>The number of times the loop body is executed by one call of \<open>_process_buffer\<close>.\<close>

function iterations :: "byte list \<Rightarrow> nat" where
  "iterations buffer =
     (if length buffer > 0 then
        (case loop_body buffer of
           Break \<Rightarrow> 1
         | Continue fs buffer' \<Rightarrow> 1 + iterations buffer')
      else 0)"
  by pat_completeness auto
termination
  by (relation "measure length") (auto simp: loop_body_shrinks)

text \<open>
  The same loop with a bound on the number of times its condition is tested: \<open>None\<close>
  means that the bound was reached before the loop was left.
\<close>

fun run_loop :: "nat \<Rightarrow> byte list \<Rightarrow> (CANFrame list \<times> byte list) option" where
  "run_loop 0 buffer = None"
| "run_loop (Suc n) buffer =
     (if length buffer > 0 then
        (case loop_body buffer of
           Break \<Rightarrow> Some ([], buffer)
         | Continue fs buffer' \<Rightarrow>
             (case run_loop n buffer' of
                None \<Rightarrow> None
              | Some (gs, b) \<Rightarrow> Some (fs @ gs, b)))
      else Some ([], buffer))"

text \<open>
  \<open>_read_loop_iteration\<close>: the bytes read from the serial port (none when
  \<open>in_waiting\<close> is 0) are appended to the buffer, then the buffer is processed.
\<close>

definition read_loop_iteration :: "byte list \<Rightarrow> byte list \<Rightarrow> CANFrame list \<times> byte list" where
  "read_loop_iteration received buffer = process_buffer (buffer @ received)"

text \<open>
  A buffer that holds the beginning of a frame and not yet all of it: the start byte alone,
  or the start byte and the type byte of a data frame with fewer bytes than the frame
  takes, or the two start bytes of a command frame with fewer than 20 bytes.
\<close>

definition truncated :: "byte list \<Rightarrow> bool" where
  "truncated buffer \<longleftrightarrow>
     buffer = [0xAA] \<or>
     (2 \<le> length buffer \<and> buffer ! 0 = 0xAA \<and>
        ((drop_bit 4 (uint (buffer ! 1)) = 0x0C \<and>
            int (length buffer) < (uint (buffer ! 1) AND 0x0F) + 5) \<or>
         (buffer ! 1 = 0x55 \<and> length buffer < 20)))"

text \<open>
  A buffer that starts with the span of a data frame: the start byte, a type byte with high
  nibble \<open>0xC\<close>, and at least as many bytes as the frame takes, which is the number
  \<open>frame_len = dlc + 5\<close> that the loop computes from the type byte.
\<close>

definition span_len :: "byte list \<Rightarrow> nat" where
  "span_len buffer = nat ((uint (buffer ! 1) AND 0x0F) + 5)"

definition data_frame_span :: "byte list \<Rightarrow> bool" where
  "data_frame_span buffer \<longleftrightarrow>
     2 \<le> length buffer \<and> buffer ! 0 = 0xAA \<and> drop_bit 4 (uint (buffer ! 1)) = 0x0C \<and>
     span_len buffer \<le> length buffer"

section \<open>Command encoder\<close>

text \<open>
  The dictionary \<open>speed_map\<close> of \<open>_init_adapter\<close>, and the lookup
  \<open>speed_map.get(self.can_speed, 0x03)\<close> with its default.
\<close>

definition speed_map :: "int \<rightharpoonup> int" where
  "speed_map = [1000000 \<mapsto> 0x01, 800000 \<mapsto> 0x02, 500000 \<mapsto> 0x03, 400000 \<mapsto> 0x04,
                250000 \<mapsto> 0x05, 200000 \<mapsto> 0x06, 125000 \<mapsto> 0x07, 100000 \<mapsto> 0x08,
                50000 \<mapsto> 0x09, 20000 \<mapsto> 0x0a, 10000 \<mapsto> 0x0b, 5000 \<mapsto> 0x0c]"

definition speed_byte :: "int \<Rightarrow> int" where
  "speed_byte can_speed = (case speed_map can_speed of Some code \<Rightarrow> code | None \<Rightarrow> 0x03)"

text \<open>\<open>_generate_checksum\<close>: \<open>sum(data) & 0xFF\<close>, on Python integers.\<close>

definition generate_checksum :: "byte list \<Rightarrow> int" where
  "generate_checksum bytes = sum_list (map uint bytes) AND 0xFF"

text \<open>
  The command that \<open>_init_adapter\<close> builds and hands to \<open>self.ser.write\<close>: 19 bytes,
  then the checksum of \<open>cmd[2:]\<close> appended as the 20th.
\<close>

definition init_adapter_cmd :: "int \<Rightarrow> byte list" where
  "init_adapter_cmd can_speed =
     (let cmd = [0xAA, 0x55, 0x12, word_of_int (speed_byte can_speed), 0x01,
                 0, 0, 0, 0, 0, 0, 0, 0, 0, 0x01, 0, 0, 0, 0];
          checksum = generate_checksum (drop 2 cmd)
      in cmd @ [word_of_int checksum])"

text \<open>
  The defining equations of the two loops are recursive without a pattern: they are
  applied one iteration at a time, through the lemmas below.
\<close>

declare process_buffer.simps [simp del] iterations.simps [simp del]

section \<open>Unfolding the loop\<close>

lemma process_buffer_Nil: "process_buffer [] = ([], [])"
  by (simp add: process_buffer.simps)

lemma process_buffer_Break:
  "buffer \<noteq> [] \<Longrightarrow> loop_body buffer = Break \<Longrightarrow> process_buffer buffer = ([], buffer)"
  by (subst process_buffer.simps) simp

lemma process_buffer_Continue:
  "buffer \<noteq> [] \<Longrightarrow> loop_body buffer = Continue fs buffer' \<Longrightarrow>
   process_buffer buffer = (fs @ fst (process_buffer buffer'), snd (process_buffer buffer'))"
  by (subst process_buffer.simps) (simp add: case_prod_beta)

lemma iterations_Nil: "iterations [] = 0"
  by (simp add: iterations.simps)

lemma iterations_Break:
  "buffer \<noteq> [] \<Longrightarrow> loop_body buffer = Break \<Longrightarrow> iterations buffer = 1"
  by (subst iterations.simps) simp

lemma iterations_Continue:
  "buffer \<noteq> [] \<Longrightarrow> loop_body buffer = Continue fs buffer' \<Longrightarrow>
   iterations buffer = 1 + iterations buffer'"
  by (subst iterations.simps) simp

section \<open>The type byte\<close>

text \<open>
  A type byte whose high nibble is \<open>0xC\<close> has bit \<open>0x20\<close> clear, and is not \<open>0x55\<close>.
\<close>

lemma bit_12_1: "\<not> bit (12::int) 1"
  by simp

lemma high_nibble_not_ext: "drop_bit 4 (uint (t::byte)) = 0x0C \<Longrightarrow> uint t AND 0x20 = 0"
proof -
  assume h: "drop_bit 4 (uint t) = 0x0C"
  have "bit (uint t) 5 = bit (drop_bit 4 (uint t)) 1"
    by (simp add: bit_drop_bit_eq)
  also have "\<dots> = bit (12::int) 1" by (simp only: h)
  finally have "\<not> bit (uint t) 5" using bit_12_1 by simp
  then have "uint t AND 2 ^ 5 = 0" by (rule and_exp_eq_0_iff_not_bit [THEN iffD2])
  then show ?thesis by simp
qed

lemma high_nibble_not_55: "drop_bit 4 (uint (t::byte)) = 0x0C \<Longrightarrow> uint t \<noteq> 0x55"
proof
  assume h: "drop_bit 4 (uint t) = 0x0C" and e: "uint t = 0x55"
  have "drop_bit 4 (85::int) = 5" by (simp add: drop_bit_eq_div)
  with h e show False by simp
qed

section \<open>Slices of a buffer that starts with a whole frame\<close>

lemma take_pre: "length F = n \<Longrightarrow> take n (F @ rest) = F"
  by simp

lemma drop_pre: "length F = n \<Longrightarrow> drop n (F @ rest) = rest"
  by simp

lemma slice_mid:
  "length H = k \<Longrightarrow> length p = L \<Longrightarrow> drop k (take (k + L) (H @ p @ r)) = p"
  by simp

lemma take_frame:
  "length payload = L \<Longrightarrow>
   take (L + 5) ([a, t, idl, idh] @ payload @ [e] @ rest) = [a, t, idl, idh] @ payload @ [e]"
  using take_pre [of "[a, t, idl, idh] @ payload @ [e]" "L + 5" rest] by simp

lemma drop_frame:
  "length payload = L \<Longrightarrow> drop (L + 5) ([a, t, idl, idh] @ payload @ [e] @ rest) = rest"
  using drop_pre [of "[a, t, idl, idh] @ payload @ [e]" "L + 5" rest] by simp

lemma payload_slice:
  "length payload = L \<Longrightarrow>
   drop 4 (take (4 + L) ([a, t, idl, idh] @ payload @ [e])) = payload"
  using slice_mid [of "[a, t, idl, idh]" 4 payload L "[e]"] by simp

section \<open>One iteration on a well-formed data frame\<close>

lemma loop_body_data_frame:
  assumes hi: "drop_bit 4 (uint t) = 0x0C"
    and lo: "uint t AND 0x0F = int L"
    and len: "length payload = L"
  shows "loop_body ([0xAA, t, idl, idh] @ payload @ [0x55] @ rest) =
           Continue [\<lparr>can_id = uint idl OR push_bit 8 (uint idh), dlc = int L,
                      data = payload, is_extended = False\<rparr>] rest"
proof -
  let ?buf = "[0xAA, t, idl, idh] @ payload @ [0x55] @ rest"
  have n: "nat (int L + 5) = L + 5" by simp
  have n4: "4 + nat (int L) = 4 + L" by simp
  have b0: "?buf ! 0 = 0xAA" and b1: "?buf ! 1 = t" by simp_all
  have l2: "\<not> length ?buf < 2" by simp
  have ll: "int L + 5 \<le> int (length ?buf)" using len by simp
  have tk: "take (L + 5) ?buf = [0xAA, t, idl, idh] @ payload @ [0x55]"
    by (rule take_frame [OF len])
  have dr: "drop (L + 5) ?buf = rest" by (rule drop_frame [OF len])
  have f1: "([0xAA, t, idl, idh] @ payload @ [0x55]) ! 1 = t"
    and f2: "([0xAA, t, idl, idh] @ payload @ [0x55]) ! 2 = idl"
    and f3: "([0xAA, t, idl, idh] @ payload @ [0x55]) ! 3 = idh"
    and la: "last ([0xAA, t, idl, idh] @ payload @ [0x55]) = 0x55"
    by simp_all
  show ?thesis
    unfolding loop_body_def Let_def b0 b1 lo n n4 tk dr f1 f2 f3 la payload_slice [OF len]
    using high_nibble_not_ext [OF hi] high_nibble_not_55 [OF hi] hi l2 ll
    by simp
qed

lemma uint_AA: "uint (x::byte) = 0xAA \<longleftrightarrow> x = 0xAA"
proof
  assume "uint x = 0xAA"
  then have "uint x = uint (0xAA :: byte)" by simp
  then show "x = 0xAA" by (simp only: word_uint_eq_iff [symmetric])
next
  assume "x = 0xAA" then show "uint x = 0xAA" by simp
qed

text \<open>
  The type bytes with high nibble \<open>0xC\<close> and low nibble \<open>L\<close> are the bytes
  \<open>0xC0 + L\<close>, for every \<open>L\<close> from 0 to 15.
\<close>

lemma type_byte_nibbles:
  "L \<le> 15 \<Longrightarrow> drop_bit 4 (uint (0xC0 + of_nat L :: byte)) = 0x0C \<and>
                uint (0xC0 + of_nat L :: byte) AND 0x0F = int L"
proof -
  assume "L \<le> 15"
  then have "L = 0 \<or> L = 1 \<or> L = 2 \<or> L = 3 \<or> L = 4 \<or> L = 5 \<or> L = 6 \<or> L = 7 \<or>
             L = 8 \<or> L = 9 \<or> L = 10 \<or> L = 11 \<or> L = 12 \<or> L = 13 \<or> L = 14 \<or> L = 15"
    by arith
  then show ?thesis by (elim disjE) (simp_all add: drop_bit_eq_div)
qed

section \<open>Resynchronisation, truncated frames and the length of a pass\<close>

lemma loop_body_resync:
  "x \<noteq> 0xAA \<Longrightarrow> loop_body (x # xs) = Continue [] xs"
  by (simp add: loop_body_def uint_AA)

lemma truncated_Break: "truncated buffer \<Longrightarrow> buffer \<noteq> [] \<and> loop_body buffer = Break"
  unfolding truncated_def
proof (elim disjE conjE)
  assume "buffer = [0xAA]"
  then show ?thesis by (simp add: loop_body_def)
next
  assume h: "2 \<le> length buffer" "buffer ! 0 = 0xAA"
    "drop_bit 4 (uint (buffer ! 1)) = 0x0C"
    "int (length buffer) < (uint (buffer ! 1) AND 0x0F) + 5"
  from h(1) have "buffer \<noteq> []" by auto
  moreover have "loop_body buffer = Break"
    using h high_nibble_not_55 [OF h(3)] by (simp add: loop_body_def Let_def)
  ultimately show ?thesis ..
next
  assume h: "2 \<le> length buffer" "buffer ! 0 = 0xAA" "buffer ! 1 = 0x55" "length buffer < 20"
  from h(1) have "buffer \<noteq> []" by auto
  moreover have "loop_body buffer = Break"
    using h by (simp add: loop_body_def)
  ultimately show ?thesis ..
qed

lemma iterations_le_length: "iterations buffer \<le> length buffer"
proof (induction buffer rule: iterations.induct)
  case (1 buffer)
  show ?case
  proof (cases "buffer = []")
    case True
    then show ?thesis by (simp add: iterations_Nil)
  next
    case ne: False
    show ?thesis
    proof (cases "loop_body buffer")
      case Break
      with ne show ?thesis by (cases buffer) (simp_all add: iterations_Break)
    next
      case (Continue fs buffer')
      have "iterations buffer' \<le> length buffer'"
        using "1.IH" [OF _ Continue] ne by simp
      moreover have "length buffer' < length buffer"
        by (rule loop_body_shrinks [OF ne Continue])
      ultimately show ?thesis
        using iterations_Continue [OF ne Continue] by simp
    qed
  qed
qed

lemma run_loop_enough:
  "length buffer < n \<Longrightarrow> run_loop n buffer = Some (process_buffer buffer)"
proof (induction n arbitrary: buffer)
  case 0
  then show ?case by simp
next
  case (Suc n)
  show ?case
  proof (cases "buffer = []")
    case True
    then show ?thesis by (simp add: process_buffer_Nil)
  next
    case ne: False
    show ?thesis
    proof (cases "loop_body buffer")
      case Break
      with ne show ?thesis by (simp add: process_buffer_Break)
    next
      case (Continue fs buffer')
      have "length buffer' < n"
        using loop_body_shrinks [OF ne Continue] Suc.prems by simp
      then have "run_loop n buffer' = Some (process_buffer buffer')" by (rule Suc.IH)
      with ne Continue show ?thesis
        by (simp add: process_buffer_Continue [OF ne Continue] case_prod_beta)
    qed
  qed
qed

section \<open>Bytes appended to the buffer\<close>

text \<open>
  An iteration that continues takes its decision from a prefix of the buffer, so it takes
  the same decision when more bytes follow; hence processing a buffer, appending bytes to
  what is left and processing again gives the frames and the buffer of processing
  everything at once.
\<close>

lemma loop_body_append:
  assumes ne: "buffer \<noteq> []" and c: "loop_body buffer = Continue fs buffer'"
  shows "loop_body (buffer @ extra) = Continue fs (buffer' @ extra)"
proof -
  have b0: "(buffer @ extra) ! 0 = buffer ! 0" using ne by (simp add: nth_append)
  have tl: "tl (buffer @ extra) = tl buffer @ extra" using ne by simp
  show ?thesis
  proof (cases "uint (buffer ! 0) \<noteq> 0xAA")
    case True
    with c b0 tl show ?thesis by (simp add: loop_body_def)
  next
    case aa: False
    then have l2: "\<not> length buffer < 2" using c by (auto simp: loop_body_def)
    then have l2': "\<not> length (buffer @ extra) < 2" by simp
    have b1: "(buffer @ extra) ! 1 = buffer ! 1" using l2 by (simp add: nth_append)
    show ?thesis
    proof (cases "uint (buffer ! 1) = 0x55")
      case True
      with aa l2 c have l20: "length buffer \<ge> 20" and r: "fs = []" "buffer' = drop 20 buffer"
        by (auto simp: loop_body_def split: if_splits)
      from l20 have "drop 20 (buffer @ extra) = drop 20 buffer @ extra" by simp
      with True aa l2' l20 r b0 b1 show ?thesis by (simp add: loop_body_def)
    next
      case n55: False
      show ?thesis
      proof (cases "drop_bit 4 (uint (buffer ! 1)) = 0x0C")
        case False
        with n55 aa l2 c have r: "fs = []" "buffer' = tl buffer"
          by (auto simp: loop_body_def split: if_splits)
        with False n55 aa l2' b0 b1 tl show ?thesis by (simp add: loop_body_def)
      next
        case True
        let ?n = "nat ((uint (buffer ! 1) AND 0x0F) + 5)"
        have ge: "int (length buffer) \<ge> (uint (buffer ! 1) AND 0x0F) + 5"
          using True n55 aa l2 c by (auto simp: loop_body_def Let_def split: if_splits)
        then have nl: "?n \<le> length buffer" by simp
        have ge': "int (length (buffer @ extra)) \<ge> (uint (buffer ! 1) AND 0x0F) + 5"
          using ge by simp
        have tk: "take ?n (buffer @ extra) = take ?n buffer" using nl by simp
        have dr: "drop ?n (buffer @ extra) = drop ?n buffer @ extra" using nl by simp
        have c': "Continue fs buffer' =
                 Continue
                    (if uint (last (take ?n buffer)) = 0x55 then
                       [\<lparr>can_id = uint (take ?n buffer ! 2) OR push_bit 8 (uint (take ?n buffer ! 3)),
                         dlc = uint (buffer ! 1) AND 0x0F,
                         data = drop 4 (take (4 + nat (uint (buffer ! 1) AND 0x0F)) (take ?n buffer)),
                         is_extended = (uint (take ?n buffer ! 1) AND 0x20 \<noteq> 0)\<rparr>]
                     else [])
                    (drop ?n buffer)"
          using True n55 aa l2 ge c [symmetric] by (simp add: loop_body_def Let_def)
        have "loop_body (buffer @ extra) =
                 Continue
                    (if uint (last (take ?n buffer)) = 0x55 then
                       [\<lparr>can_id = uint (take ?n buffer ! 2) OR push_bit 8 (uint (take ?n buffer ! 3)),
                         dlc = uint (buffer ! 1) AND 0x0F,
                         data = drop 4 (take (4 + nat (uint (buffer ! 1) AND 0x0F)) (take ?n buffer)),
                         is_extended = (uint (take ?n buffer ! 1) AND 0x20 \<noteq> 0)\<rparr>]
                     else [])
                    (drop ?n buffer @ extra)"
          unfolding loop_body_def Let_def b0 b1 tk dr
          using True n55 aa l2' ge' by simp
        with c' show ?thesis by simp
      qed
    qed
  qed
qed

lemma process_buffer_append:
  "process_buffer (buffer @ extra) =
     (fst (process_buffer buffer) @ fst (process_buffer (snd (process_buffer buffer) @ extra)),
      snd (process_buffer (snd (process_buffer buffer) @ extra)))"
proof (induction buffer rule: process_buffer.induct)
  case (1 buffer)
  show ?case
  proof (cases "buffer = []")
    case True
    then show ?thesis by (simp add: process_buffer_Nil)
  next
    case ne: False
    show ?thesis
    proof (cases "loop_body buffer")
      case Break
      show ?thesis by (simp add: process_buffer_Break [OF ne Break])
    next
      case (Continue fs buffer')
      have ih: "process_buffer (buffer' @ extra) =
        (fst (process_buffer buffer') @ fst (process_buffer (snd (process_buffer buffer') @ extra)),
         snd (process_buffer (snd (process_buffer buffer') @ extra)))"
        using "1.IH" [OF _ Continue] ne by simp
      have ne': "buffer @ extra \<noteq> []" using ne by simp
      note st = loop_body_append [OF ne Continue, of extra]
      show ?thesis
        unfolding process_buffer_Continue [OF ne' st] process_buffer_Continue [OF ne Continue]
        by (simp add: ih)
    qed
  qed
qed


lemma process_buffer_no_start:
  "0xAA \<notin> set buffer \<Longrightarrow>
   process_buffer buffer = ([], []) \<and> iterations buffer = length buffer"
proof (induction buffer)
  case Nil
  show ?case by (simp add: process_buffer_Nil iterations_Nil)
next
  case (Cons x xs)
  then have x: "x \<noteq> 0xAA" and xs: "0xAA \<notin> set xs" by auto
  have ne: "x # xs \<noteq> []" by simp
  note step = loop_body_resync [OF x, of xs]
  show ?case
    using process_buffer_Continue [OF ne step] iterations_Continue [OF ne step] Cons.IH [OF xs]
    by simp
qed

lemma process_buffer_data_frame:
  assumes hi: "drop_bit 4 (uint t) = 0x0C"
    and lo: "uint t AND 0x0F = int L"
    and len: "length payload = L"
  shows "process_buffer ([0xAA, t, idl, idh] @ payload @ [0x55] @ rest) =
           (\<lparr>can_id = uint idl OR push_bit 8 (uint idh), dlc = int L,
             data = payload, is_extended = False\<rparr> # fst (process_buffer rest),
            snd (process_buffer rest))"
proof -
  have ne: "[0xAA, t, idl, idh] @ payload @ [0x55] @ rest \<noteq> []" by simp
  show ?thesis
    using process_buffer_Continue [OF ne loop_body_data_frame [OF hi lo len, of idl idh rest]]
    by simp
qed

section \<open>The bytes of the initialisation command\<close>

lemma speed_byte_range: "1 \<le> speed_byte s \<and> speed_byte s \<le> 12"
  by (simp add: speed_byte_def speed_map_def)

lemma uint_speed_byte: "uint (word_of_int (speed_byte s) :: byte) = speed_byte s"
  using speed_byte_range [of s] by (simp add: uint_word_of_int)

lemma low_byte_of_sum: "1 \<le> c \<Longrightarrow> c \<le> 12 \<Longrightarrow> (0x14 + c) AND (0xFF::int) = 0x14 + c"
proof -
  assume "1 \<le> c" "c \<le> 12"
  then have "c = 1 \<or> c = 2 \<or> c = 3 \<or> c = 4 \<or> c = 5 \<or> c = 6 \<or> c = 7 \<or> c = 8 \<or>
             c = 9 \<or> c = 10 \<or> c = 11 \<or> c = 12"
    by arith
  then show ?thesis by (elim disjE) simp_all
qed

lemma checksum_of_body:
  "generate_checksum [0x12, word_of_int (speed_byte s), 0x01, 0, 0, 0, 0, 0, 0, 0, 0, 0, 0x01,
                      0, 0, 0, 0] = speed_byte s + 0x14"
proof -
  have "sum_list (map uint [0x12, word_of_int (speed_byte s) :: byte, 0x01, 0, 0, 0, 0, 0, 0, 0,
                            0, 0, 0x01, 0, 0, 0, 0]) = 0x14 + speed_byte s"
    by (simp add: uint_speed_byte)
  then show ?thesis
    unfolding generate_checksum_def
    using low_byte_of_sum [of "speed_byte s"] speed_byte_range [of s] by simp
qed

lemma init_adapter_cmd_bytes:
  "init_adapter_cmd s =
     [0xAA, 0x55, 0x12, word_of_int (speed_byte s), 0x01, 0, 0, 0, 0, 0, 0, 0, 0, 0, 0x01,
      0, 0, 0, 0, word_of_int (speed_byte s + 0x14)]"
  unfolding init_adapter_cmd_def Let_def
  by (simp add: checksum_of_body)

lemma uint_small: "0 \<le> x \<Longrightarrow> x < 256 \<Longrightarrow> uint (word_of_int x :: byte) = x"
  by (simp add: uint_word_of_int)

lemma uint_checksum_byte: "uint (word_of_int (speed_byte s + 0x14) :: byte) = speed_byte s + 0x14"
proof (rule uint_small)
  show "0 \<le> speed_byte s + 0x14" using speed_byte_range [of s] by simp
  show "speed_byte s + 0x14 < 256" using speed_byte_range [of s] by simp
qed

section \<open>Spans of data frames\<close>

text \<open>
  What an iteration does on the span of a data frame, whatever its last byte is; and where
  the frames that a call emits come from.
\<close>

lemma uint_55: "uint (x::byte) = 0x55 \<longleftrightarrow> x = 0x55"
proof
  assume "uint x = 0x55"
  then have "uint x = uint (0x55 :: byte)" by simp
  then show "x = 0x55" by (simp only: word_uint_eq_iff [symmetric])
next
  assume "x = 0x55" then show "uint x = 0x55" by simp
qed

lemma span_len_ge: "5 \<le> span_len buffer"
  unfolding span_len_def using nibble_range [of "buffer ! 1"] by linarith

lemma last_take: "0 < n \<Longrightarrow> n \<le> length xs \<Longrightarrow> last (take n xs) = xs ! (n - 1)"
proof -
  assume n: "0 < n" "n \<le> length xs"
  then have "take n xs \<noteq> []" by auto
  then have "last (take n xs) = take n xs ! (length (take n xs) - 1)" by (rule last_conv_nth)
  also have "\<dots> = xs ! (n - 1)" using n by (simp add: min_def)
  finally show ?thesis .
qed

lemma loop_body_data_span:
  assumes sp: "data_frame_span buffer"
  shows "loop_body buffer =
     Continue
       (if buffer ! (span_len buffer - 1) = 0x55 then
          [\<lparr>can_id = uint (buffer ! 2) OR push_bit 8 (uint (buffer ! 3)),
            dlc = uint (buffer ! 1) AND 0x0F,
            data = drop 4 (take (span_len buffer - 1) buffer),
            is_extended = False\<rparr>]
        else [])
       (drop (span_len buffer) buffer)"
proof -
  let ?n = "span_len buffer"
  from sp have l2: "2 \<le> length buffer" and aa: "buffer ! 0 = 0xAA"
    and hi: "drop_bit 4 (uint (buffer ! 1)) = 0x0C" and nl: "?n \<le> length buffer"
    by (simp_all add: data_frame_span_def)
  have n5: "5 \<le> ?n" by (rule span_len_ge)
  have ge: "(uint (buffer ! 1) AND 0x0F) + 5 \<le> int (length buffer)"
    using nl nibble_range [of "buffer ! 1"] by (simp add: span_len_def)
  have la: "last (take ?n buffer) = buffer ! (?n - 1)"
    using n5 nl by (simp add: last_take)
  have t1: "take ?n buffer ! 1 = buffer ! 1" and t2: "take ?n buffer ! 2 = buffer ! 2"
    and t3: "take ?n buffer ! 3 = buffer ! 3"
    using n5 by simp_all
  have n4: "4 + nat (uint (buffer ! 1) AND 0x0F) = ?n - 1"
    unfolding span_len_def using nibble_range [of "buffer ! 1"] by linarith
  have tt: "take (?n - 1) (take ?n buffer) = take (?n - 1) buffer" by simp
  have u55: "uint (buffer ! (?n - 1)) = 0x55 \<longleftrightarrow> buffer ! (?n - 1) = 0x55"
    by (rule uint_55)
  show ?thesis
    unfolding loop_body_def Let_def span_len_def [symmetric] la t1 t2 t3 n4 tt
    using aa l2 hi ge high_nibble_not_55 [OF hi] high_nibble_not_ext [OF hi] u55
    by simp
qed


lemma loop_body_emits_span:
  assumes ne: "buffer \<noteq> []" and c: "loop_body buffer = Continue fs buffer'" and fs: "fs \<noteq> []"
  shows "data_frame_span buffer"
proof -
  have aa: "uint (buffer ! 0) = 0xAA"
    using c fs by (auto simp: loop_body_def split: if_splits)
  have l2: "\<not> length buffer < 2"
    using c aa by (auto simp: loop_body_def split: if_splits)
  have n55: "uint (buffer ! 1) \<noteq> 0x55"
    using c fs aa l2 by (auto simp: loop_body_def split: if_splits)
  have hi: "drop_bit 4 (uint (buffer ! 1)) = 0x0C"
    using c fs aa l2 n55 by (auto simp: loop_body_def split: if_splits)
  have ge: "(uint (buffer ! 1) AND 0x0F) + 5 \<le> int (length buffer)"
    using c aa l2 n55 hi by (auto simp: loop_body_def Let_def split: if_splits)
  then have "span_len buffer \<le> length buffer"
    unfolding span_len_def by linarith
  with aa l2 hi show ?thesis by (simp add: data_frame_span_def uint_AA)
qed

lemma loop_body_consumes:
  assumes ne: "buffer \<noteq> []" and c: "loop_body buffer = Continue fs buffer'"
  shows "\<exists>consumed. buffer = consumed @ buffer'"
proof -
  have "buffer' = tl buffer \<or> (\<exists>k. buffer' = drop k buffer)"
    using c by (auto simp: loop_body_def Let_def split: if_splits)
  then show ?thesis
  proof
    assume "buffer' = tl buffer"
    with ne have "buffer = [hd buffer] @ buffer'" by simp
    then show ?thesis ..
  next
    assume "\<exists>k. buffer' = drop k buffer"
    then obtain k where "buffer' = drop k buffer" ..
    then have "buffer = take k buffer @ buffer'" by simp
    then show ?thesis ..
  qed
qed

lemma process_buffer_suffix: "\<exists>consumed. buffer = consumed @ snd (process_buffer buffer)"
proof (induction buffer rule: process_buffer.induct)
  case (1 buffer)
  show ?case
  proof (cases "buffer = []")
    case True
    then show ?thesis by (simp add: process_buffer_Nil)
  next
    case ne: False
    show ?thesis
    proof (cases "loop_body buffer")
      case Break
      show ?thesis by (simp add: process_buffer_Break [OF ne Break])
    next
      case (Continue fs buffer')
      from "1.IH" [OF _ Continue] ne
      obtain c2 where c2: "buffer' = c2 @ snd (process_buffer buffer')" by auto
      from loop_body_consumes [OF ne Continue]
      obtain c1 where c1: "buffer = c1 @ buffer'" ..
      have "buffer = (c1 @ c2) @ snd (process_buffer buffer')"
        using c1 c2 by (metis append_assoc)
      then show ?thesis
        unfolding process_buffer_Continue [OF ne Continue] snd_conv ..
    qed
  qed
qed

lemma data_frame_span_take:
  assumes sp: "data_frame_span buffer"
  shows "data_frame_span (take (span_len buffer) buffer) \<and>
         span_len (take (span_len buffer) buffer) = span_len buffer \<and>
         length (take (span_len buffer) buffer) = span_len buffer"
proof -
  let ?n = "span_len buffer"
  from sp have l2: "2 \<le> length buffer" and aa: "buffer ! 0 = 0xAA"
    and hi: "drop_bit 4 (uint (buffer ! 1)) = 0x0C" and nl: "?n \<le> length buffer"
    by (simp_all add: data_frame_span_def)
  have n5: "5 \<le> ?n" by (rule span_len_ge)
  have t0: "take ?n buffer ! 0 = buffer ! 0" and t1: "take ?n buffer ! 1 = buffer ! 1"
    using n5 by simp_all
  have len: "length (take ?n buffer) = ?n" using nl by simp
  have "span_len (take ?n buffer) = nat ((uint (take ?n buffer ! 1) AND 0x0F) + 5)"
    by (rule span_len_def)
  also have "\<dots> = nat ((uint (buffer ! 1) AND 0x0F) + 5)" by (simp only: t1)
  also have "\<dots> = ?n" by (rule span_len_def [symmetric])
  finally have sl: "span_len (take ?n buffer) = ?n" .
  have "data_frame_span (take ?n buffer)"
    unfolding data_frame_span_def sl len t0 t1 using aa hi n5 by simp
  with sl len show ?thesis by blast
qed

lemma emitted_from_span:
  "f \<in> set (fst (process_buffer buffer)) \<Longrightarrow>
   \<exists>pre span post. buffer = pre @ span @ post @ snd (process_buffer buffer) \<and>
      data_frame_span span \<and> length span = span_len span \<and>
      int (length span) = dlc f + 5 \<and> span ! (length span - 1) = 0x55 \<and>
      data f = drop 4 (take (length span - 1) span)"
proof (induction buffer rule: process_buffer.induct)
  case (1 buffer)
  show ?case
  proof (cases "buffer = []")
    case True
    with "1.prems" show ?thesis by (simp add: process_buffer_Nil)
  next
    case ne: False
    show ?thesis
    proof (cases "loop_body buffer")
      case Break
      with "1.prems" ne show ?thesis by (simp add: process_buffer_Break)
    next
      case (Continue fs buffer')
      note pb = process_buffer_Continue [OF ne Continue]
      from "1.prems" have mem: "f \<in> set fs \<or> f \<in> set (fst (process_buffer buffer'))"
        unfolding pb by auto
      from process_buffer_suffix [of buffer']
      obtain mid where mid: "buffer' = mid @ snd (process_buffer buffer')" ..
      from mem show ?thesis
      proof
        assume ffs: "f \<in> set fs"
        then have "fs \<noteq> []" by auto
        from loop_body_emits_span [OF ne Continue this] have sp: "data_frame_span buffer" .
        let ?n = "span_len buffer"
        let ?span = "take ?n buffer"
        note st = loop_body_data_span [OF sp]
        from st Continue ffs have t55: "buffer ! (?n - 1) = 0x55"
          by (auto split: if_splits)
        from st Continue ffs t55
        have feq: "f = \<lparr>can_id = uint (buffer ! 2) OR push_bit 8 (uint (buffer ! 3)),
                        dlc = uint (buffer ! 1) AND 0x0F,
                        data = drop 4 (take (?n - 1) buffer), is_extended = False\<rparr>"
          and b': "buffer' = drop ?n buffer"
          by auto
        from data_frame_span_take [OF sp]
        have s1: "data_frame_span ?span" and s2: "span_len ?span = ?n"
          and s3: "length ?span = ?n" by blast+
        have n5: "5 \<le> ?n" by (rule span_len_ge)
        have d: "int (length ?span) = dlc f + 5"
          unfolding s3 feq using nibble_range [of "buffer ! 1"]
          by (simp add: span_len_def)
        have e: "?span ! (length ?span - 1) = 0x55"
          unfolding s3 using t55 n5 by simp
        have g: "data f = drop 4 (take (length ?span - 1) ?span)"
          unfolding s3 feq by simp
        have "buffer = ?span @ buffer'" unfolding b' by simp
        then have "buffer = [] @ ?span @ mid @ snd (process_buffer buffer)"
          unfolding pb snd_conv using mid by simp
        with s1 s2 s3 d e g show ?thesis by metis
      next
        assume "f \<in> set (fst (process_buffer buffer'))"
        from "1.IH" [OF _ Continue this] ne
        obtain pre span post where
          b: "buffer' = pre @ span @ post @ snd (process_buffer buffer')"
          and r: "data_frame_span span" "length span = span_len span"
            "int (length span) = dlc f + 5" "span ! (length span - 1) = 0x55"
            "data f = drop 4 (take (length span - 1) span)"
          by auto
        from loop_body_consumes [OF ne Continue]
        obtain c1 where c1: "buffer = c1 @ buffer'" ..
        have "buffer = (c1 @ pre) @ span @ post @ snd (process_buffer buffer)"
          unfolding pb snd_conv using c1 b by (metis append_assoc)
        with r show ?thesis by blast
      qed
    qed
  qed
qed


text \<open>
  An iteration that continues discards one byte, or the 20 bytes of a command frame, or
  the span of a data frame.
\<close>

lemma loop_body_discards:
  assumes ne: "buf \<noteq> []" and c: "loop_body buf = Continue fs buf'"
  shows "buf' = drop 1 buf \<or> (20 \<le> length buf \<and> buf' = drop 20 buf) \<or>
         (data_frame_span buf \<and> buf' = drop (span_len buf) buf)"
proof (cases "data_frame_span buf")
  case True
  from loop_body_data_span [OF True] c show ?thesis using True by simp
next
  case False
  have tl: "tl buf = drop 1 buf" by (simp add: drop_Suc)
  from False have nsp: "\<not> (uint (buf ! 0) = 0xAA \<and> \<not> length buf < 2 \<and>
      drop_bit 4 (uint (buf ! 1)) = 0x0C \<and> (uint (buf ! 1) AND 0x0F) + 5 \<le> int (length buf))"
    using nibble_range [of "buf ! 1"]
    by (auto simp: data_frame_span_def span_len_def uint_AA)
  from c nsp tl show ?thesis
    by (auto simp: loop_body_def Let_def split: if_splits)
qed


section \<open>The claims about the frame decoder\<close>

text \<open>
  Claim C1, as amended. Let the buffer start with a well-formed data frame: the start byte
  \<open>0xAA\<close>, a type byte \<open>t\<close> with high nibble \<open>0xC\<close> and low nibble \<open>L\<close>, the two
  identifier bytes, \<open>L\<close> payload bytes and the terminator \<open>0x55\<close>; \<open>rest\<close> is whatever
  follows the frame. Then \<open>L\<close> is at most 15, the frame is \<open>L + 5\<close> bytes long, and the
  iteration of the loop that meets the frame emits exactly one frame, with \<open>dlc = L\<close>, with
  the \<open>L\<close> bytes at offset 4 as its data and with the identifier
  \<open>buffer[2] | (buffer[3] << 8)\<close>, and leaves exactly \<open>rest\<close> in the buffer: the buffer
  advances by \<open>L + 5\<close> bytes. The call of \<open>_process_buffer\<close> emits this frame first and
  goes on with \<open>rest\<close>; when the buffer holds the frame and nothing else, the call emits
  this one frame and leaves the buffer empty.
\<close>

theorem C1_data_frame_decoded:
  assumes hi: "drop_bit 4 (uint t) = 0x0C"
    and lo: "uint t AND 0x0F = int L"
    and len: "length payload = L"
  shows "let frame = [0xAA, t, idl, idh] @ payload @ [0x55];
             f = \<lparr>can_id = uint idl OR push_bit 8 (uint idh), dlc = int L,
                  data = payload, is_extended = False\<rparr>
         in L \<le> 15 \<and> length frame = L + 5 \<and>
            loop_body (frame @ rest) = Continue [f] rest \<and>
            process_buffer (frame @ rest) =
              (f # fst (process_buffer rest), snd (process_buffer rest)) \<and>
            process_buffer frame = ([f], [])"
proof -
  let ?frame = "[0xAA, t, idl, idh] @ payload @ [0x55]"
  let ?f = "\<lparr>can_id = uint idl OR push_bit 8 (uint idh), dlc = int L,
             data = payload, is_extended = False\<rparr>"
  have L15: "L \<le> 15" using nibble_range [of t] lo by simp
  have lf: "length ?frame = L + 5" using len by simp
  have step: "loop_body (?frame @ r) = Continue [?f] r" for r
    using loop_body_data_frame [OF hi lo len, of idl idh r] by simp
  have ne: "?frame @ r \<noteq> []" for r by simp
  have pass: "process_buffer (?frame @ r) =
                (?f # fst (process_buffer r), snd (process_buffer r))" for r
    using process_buffer_Continue [OF ne step] by simp
  have alone: "process_buffer ?frame = ([?f], [])"
    using pass [of "[]"] by (simp add: process_buffer_Nil)
  show ?thesis
    unfolding Let_def using L15 lf step [of rest] pass [of rest] alone by blast
qed

theorem C1_data_frame_decoded_witness:
  "drop_bit 4 (uint (0xC8 :: byte)) = 0x0C \<and> uint (0xC8 :: byte) AND 0x0F = int 8 \<and>
   length [1, 2, 3, 4, 5, 6, 7, 8 :: byte] = 8 \<and>
   loop_body ([0xAA, 0xC8, 0x23, 0x01, 1, 2, 3, 4, 5, 6, 7, 8, 0x55] @ [0x7F]) =
     Continue [\<lparr>can_id = 0x123, dlc = 8, data = [1, 2, 3, 4, 5, 6, 7, 8], is_extended = False\<rparr>]
       [0x7F] \<and>
   process_buffer [0xAA, 0xC8, 0x23, 0x01, 1, 2, 3, 4, 5, 6, 7, 8, 0x55] =
     ([\<lparr>can_id = 0x123, dlc = 8, data = [1, 2, 3, 4, 5, 6, 7, 8], is_extended = False\<rparr>], [])"
proof -
  have hi: "drop_bit 4 (uint (0xC8 :: byte)) = 0x0C" by (simp add: drop_bit_eq_div)
  have lo: "uint (0xC8 :: byte) AND 0x0F = int 8" by simp
  have len: "length [1, 2, 3, 4, 5, 6, 7, 8 :: byte] = 8" by simp
  have id: "uint (0x23 :: byte) OR push_bit 8 (uint (0x01 :: byte)) = 0x123"
    by (simp add: push_bit_eq_mult)
  show ?thesis
    using C1_data_frame_decoded [OF hi lo len, of "0x23" "0x01" "[0x7F]"] hi lo id
    by (simp add: Let_def)
qed

text \<open>
  Claim C1, as stated, speaks of one decode pass, which is one call of \<open>_process_buffer\<close>,
  on every buffer whose head is a well-formed data frame. The call does not stop after the
  first frame: on two frames of length 0 back to back, the head of the buffer is a
  well-formed data frame, and the call emits two frames and advances the buffer by 10 bytes,
  not one frame and 5 bytes.
\<close>

theorem C1_back_to_back_counterexample:
  "drop_bit 4 (uint (0xC0 :: byte)) = 0x0C \<and> uint (0xC0 :: byte) AND 0x0F = 0 \<and>
   process_buffer [0xAA, 0xC0, 0x23, 0x01, 0x55, 0xAA, 0xC0, 0x24, 0x01, 0x55] =
     ([\<lparr>can_id = 0x123, dlc = 0, data = [], is_extended = False\<rparr>,
       \<lparr>can_id = 0x124, dlc = 0, data = [], is_extended = False\<rparr>], []) \<and>
   \<not> (length (fst (process_buffer [0xAA, 0xC0, 0x23, 0x01, 0x55, 0xAA, 0xC0, 0x24, 0x01, 0x55])) = 1 \<and>
      snd (process_buffer [0xAA, 0xC0, 0x23, 0x01, 0x55, 0xAA, 0xC0, 0x24, 0x01, 0x55]) =
        drop 5 [0xAA, 0xC0, 0x23, 0x01, 0x55, 0xAA, 0xC0, 0x24, 0x01, 0x55])"
proof -
  have hi: "drop_bit 4 (uint (0xC0 :: byte)) = 0x0C" by (simp add: drop_bit_eq_div)
  have lo: "uint (0xC0 :: byte) AND 0x0F = int 0" by simp
  have len: "length ([] :: byte list) = 0" by simp
  have id1: "uint (0x23 :: byte) OR push_bit 8 (uint (0x01 :: byte)) = 0x123"
    by (simp add: push_bit_eq_mult)
  have id2: "uint (0x24 :: byte) OR push_bit 8 (uint (0x01 :: byte)) = 0x124"
    by (simp add: push_bit_eq_mult)
  have second: "process_buffer [0xAA, 0xC0, 0x24, 0x01, 0x55] =
      ([\<lparr>can_id = 0x124, dlc = 0, data = [], is_extended = False\<rparr>], [])"
    using process_buffer_data_frame [OF hi lo len, of "0x24" "0x01" "[]"] id2
    by (simp add: process_buffer_Nil)
  have both: "process_buffer [0xAA, 0xC0, 0x23, 0x01, 0x55, 0xAA, 0xC0, 0x24, 0x01, 0x55] =
     ([\<lparr>can_id = 0x123, dlc = 0, data = [], is_extended = False\<rparr>,
       \<lparr>can_id = 0x124, dlc = 0, data = [], is_extended = False\<rparr>], [])"
    using process_buffer_data_frame
            [OF hi lo len, of "0x23" "0x01" "[0xAA, 0xC0, 0x24, 0x01, 0x55]"] id1 second
    by simp
  have two: "length (fst (process_buffer
      [0xAA, 0xC0, 0x23, 0x01, 0x55, 0xAA, 0xC0, 0x24, 0x01, 0x55])) \<noteq> 1"
    unfolding both by simp
  from hi lo both two show ?thesis by simp
qed

text \<open>
  Claim C2. Let the buffer start with the span of a data frame: \<open>0xAA\<close>, a type byte
  with high nibble \<open>0xC\<close>, and at least length + 5 bytes in the buffer. If the byte at the
  terminator offset length + 4 is not \<open>0x55\<close>, the iteration emits no frame and still
  discards exactly length + 5 bytes, and the call goes on with what follows the span.
  Every frame that an iteration emits is the only frame of that iteration, the buffer then
  starts with the span of a data frame, and the iteration discards exactly \<open>dlc + 5\<close>
  bytes. Every frame that a call of \<open>_process_buffer\<close> emits comes from a span of the
  buffer that starts with \<open>0xAA\<close>, is \<open>dlc + 5\<close> bytes long, ends with \<open>0x55\<close>, holds the
  frame's data from offset 4 on, and lies in the part of the buffer that the call consumed.
\<close>

theorem C2_terminator_mismatch:
  "(data_frame_span buffer \<and> buffer ! (span_len buffer - 1) \<noteq> 0x55 \<longrightarrow>
      int (span_len buffer) = (uint (buffer ! 1) AND 0x0F) + 5 \<and>
      loop_body buffer = Continue [] (drop (span_len buffer) buffer) \<and>
      process_buffer buffer = process_buffer (drop (span_len buffer) buffer)) \<and>
   (buffer \<noteq> [] \<and> loop_body buffer = Continue fs buffer' \<and> f \<in> set fs \<longrightarrow>
      fs = [f] \<and> data_frame_span buffer \<and> int (span_len buffer) = dlc f + 5 \<and>
      buffer' = drop (span_len buffer) buffer) \<and>
   (f \<in> set (fst (process_buffer buffer)) \<longrightarrow>
      (\<exists>pre span post. buffer = pre @ span @ post @ snd (process_buffer buffer) \<and>
         data_frame_span span \<and> length span = span_len span \<and>
         int (length span) = dlc f + 5 \<and> span ! (length span - 1) = 0x55 \<and>
         data f = drop 4 (take (length span - 1) span)))"
proof (intro conjI impI)
  assume h: "data_frame_span buffer \<and> buffer ! (span_len buffer - 1) \<noteq> 0x55"
  then have sp: "data_frame_span buffer" and t: "buffer ! (span_len buffer - 1) \<noteq> 0x55"
    by blast+
  show "int (span_len buffer) = (uint (buffer ! 1) AND 0x0F) + 5"
    unfolding span_len_def using nibble_range [of "buffer ! 1"] by linarith
  show st: "loop_body buffer = Continue [] (drop (span_len buffer) buffer)"
    using loop_body_data_span [OF sp] t by simp
  have ne: "buffer \<noteq> []" using sp by (auto simp: data_frame_span_def)
  show "process_buffer buffer = process_buffer (drop (span_len buffer) buffer)"
    using process_buffer_Continue [OF ne st] by simp
next
  assume h: "buffer \<noteq> [] \<and> loop_body buffer = Continue fs buffer' \<and> f \<in> set fs"
  then have ne: "buffer \<noteq> []" and c: "loop_body buffer = Continue fs buffer'"
    and ffs: "f \<in> set fs" by blast+
  from ffs have "fs \<noteq> []" by auto
  from loop_body_emits_span [OF ne c this] show sp: "data_frame_span buffer" .
  note st = loop_body_data_span [OF sp]
  from st c ffs have t55: "buffer ! (span_len buffer - 1) = 0x55"
    by (auto split: if_splits)
  from st c ffs t55 show "fs = [f]" by auto
  from st c show "buffer' = drop (span_len buffer) buffer" by simp
  from st c ffs t55 have "dlc f = uint (buffer ! 1) AND 0x0F" by auto
  then show "int (span_len buffer) = dlc f + 5"
    unfolding span_len_def using nibble_range [of "buffer ! 1"] by linarith
next
  assume "f \<in> set (fst (process_buffer buffer))"
  then show "\<exists>pre span post. buffer = pre @ span @ post @ snd (process_buffer buffer) \<and>
         data_frame_span span \<and> length span = span_len span \<and>
         int (length span) = dlc f + 5 \<and> span ! (length span - 1) = 0x55 \<and>
         data f = drop 4 (take (length span - 1) span)"
    by (rule emitted_from_span)
qed

theorem C2_terminator_mismatch_witness:
  "data_frame_span [0xAA, 0xC1, 0x23, 0x01, 0x07, 0x99, 0x7F] \<and>
   [0xAA, 0xC1, 0x23, 0x01, 0x07, 0x99, 0x7F] ! (span_len [0xAA, 0xC1, 0x23, 0x01, 0x07, 0x99, 0x7F] - 1)
     \<noteq> (0x55 :: byte) \<and>
   span_len [0xAA, 0xC1, 0x23, 0x01, 0x07, 0x99, 0x7F] = 6 \<and>
   loop_body [0xAA, 0xC1, 0x23, 0x01, 0x07, 0x99, 0x7F] = Continue [] [0x7F] \<and>
   process_buffer [0xAA, 0xC1, 0x23, 0x01, 0x07, 0x99, 0x7F] = ([], []) \<and>
   [0xAA, 0xC1, 0x23, 0x01, 0x07, 0x55, 0xAA :: byte] \<noteq> [] \<and>
   loop_body [0xAA, 0xC1, 0x23, 0x01, 0x07, 0x55, 0xAA] =
     Continue [\<lparr>can_id = 0x123, dlc = 1, data = [0x07], is_extended = False\<rparr>] [0xAA] \<and>
   \<lparr>can_id = 0x123, dlc = 1, data = [0x07], is_extended = False\<rparr>
     \<in> set (fst (process_buffer [0xAA, 0xC1, 0x23, 0x01, 0x07, 0x55, 0xAA])) \<and>
   data_frame_span [0xAA, 0xC1, 0x23, 0x01, 0x07, 0x55, 0xAA] \<and>
   int (span_len [0xAA, 0xC1, 0x23, 0x01, 0x07, 0x55, 0xAA]) = 1 + 5 \<and>
   (\<exists>pre span post.
      [0xAA, 0xC1, 0x23, 0x01, 0x07, 0x55, 0xAA] =
        pre @ span @ post @ snd (process_buffer [0xAA, 0xC1, 0x23, 0x01, 0x07, 0x55, 0xAA]) \<and>
      data_frame_span span \<and> int (length span) = 1 + 5)"
proof -
  let ?bad = "[0xAA, 0xC1, 0x23, 0x01, 0x07, 0x99, 0x7F :: byte]"
  let ?good = "[0xAA, 0xC1, 0x23, 0x01, 0x07, 0x55, 0xAA :: byte]"
  let ?f = "\<lparr>can_id = 0x123, dlc = 1, data = [0x07], is_extended = False\<rparr>"
  have hi: "drop_bit 4 (uint (0xC1 :: byte)) = 0x0C" by (simp add: drop_bit_eq_div)
  have lo: "uint (0xC1 :: byte) AND 0x0F = int 1" by simp
  have id: "uint (0x23 :: byte) OR push_bit 8 (uint (0x01 :: byte)) = 0x123"
    by (simp add: push_bit_eq_mult)
  have slb: "span_len ?bad = 6" and slg: "span_len ?good = 6"
    using lo by (simp_all add: span_len_def)
  have spb: "data_frame_span ?bad" and spg: "data_frame_span ?good"
    using hi slb slg by (simp_all add: data_frame_span_def)
  have tb: "?bad ! (span_len ?bad - 1) \<noteq> 0x55" unfolding slb by simp
  have dr: "drop 6 ?bad = [0x7F]" by simp
  have r: "loop_body [0x7F] = Continue [] []" by (simp add: loop_body_def)
  have rest: "process_buffer [0x7F] = ([], [])"
    using process_buffer_Continue [OF _ r] by (simp add: process_buffer_Nil)
  note t1 = C2_terminator_mismatch [of ?bad, unfolded slb dr rest]
  from t1 spb tb [unfolded slb] have b1: "loop_body ?bad = Continue [] [0x7F]"
    and b2: "process_buffer ?bad = ([], [])" by blast+
  have stg: "loop_body ?good = Continue [?f] [0xAA]"
    using loop_body_data_frame [OF hi lo, of "[0x07]" "0x23" "0x01" "[0xAA]"] id by simp
  have neg: "?good \<noteq> []" by simp
  have la: "loop_body [0xAA] = Break" by (simp add: loop_body_def)
  have pg: "process_buffer ?good = ([?f], [0xAA])"
    using process_buffer_Continue [OF neg stg] process_buffer_Break [OF _ la] by simp
  have mem: "?f \<in> set (fst (process_buffer ?good))" unfolding pg by simp
  have mem1: "?f \<in> set [?f]" by simp
  note t2 = C2_terminator_mismatch [of ?good "[?f]" "[0xAA]" ?f]
  from t2 neg stg mem1 have g1: "int (span_len ?good) = dlc ?f + 5" by blast
  from t2 mem obtain pre span post where
    "?good = pre @ span @ post @ snd (process_buffer ?good)" "data_frame_span span"
    "int (length span) = dlc ?f + 5" by blast
  then have g2: "\<exists>pre span post. ?good = pre @ span @ post @ snd (process_buffer ?good) \<and>
      data_frame_span span \<and> int (length span) = 1 + 5"
    by auto
  from g1 have g1': "int (span_len ?good) = 1 + 5" by simp
  from spb tb slb b1 b2 neg stg mem spg g1' g2 show ?thesis by blast
qed

text \<open>
  Claim C3. On a buffer that contains no byte \<open>0xAA\<close>, a call of \<open>_process_buffer\<close> emits
  no frame and leaves the buffer empty, and it executes the loop body once for each byte of
  the buffer: the bytes are discarded one at a time.
\<close>

theorem C3_no_start_byte:
  "0xAA \<notin> set buffer \<Longrightarrow>
   process_buffer buffer = ([], []) \<and> iterations buffer = length buffer"
  by (rule process_buffer_no_start)

theorem C3_no_start_byte_witness:
  "0xAA \<notin> set [0x7F, 0x55, 0x00 :: byte] \<and>
   process_buffer [0x7F, 0x55, 0x00] = ([], []) \<and> iterations [0x7F, 0x55, 0x00] = 3"
proof -
  have h: "0xAA \<notin> set [0x7F, 0x55, 0x00 :: byte]" by simp
  show ?thesis using h C3_no_start_byte [OF h] by simp
qed

text \<open>
  Claim C4. Let a complete well-formed data frame be cut into two consecutive chunks at
  any place. Appending the first chunk to the empty buffer and processing, then appending
  the second chunk to what was left and processing again, emits in all exactly the one
  frame, and leaves the empty buffer, that appending the whole frame and processing once
  does. More generally, for any pending buffer and any two chunks of bytes, delivery in
  two steps emits the same frames and leaves the same buffer as delivery in one step.
\<close>

theorem C4_split_delivery:
  assumes hi: "drop_bit 4 (uint t) = 0x0C"
    and lo: "uint t AND 0x0F = int L"
    and len: "length payload = L"
    and split: "first @ second = [0xAA, t, idl, idh] @ payload @ [0x55]"
  shows "let f = \<lparr>can_id = uint idl OR push_bit 8 (uint idh), dlc = int L,
                  data = payload, is_extended = False\<rparr>;
             r1 = read_loop_iteration first [];
             r2 = read_loop_iteration second (snd r1)
         in (fst r1 @ fst r2, snd r2) = ([f], []) \<and>
            read_loop_iteration (first @ second) [] = ([f], []) \<and>
            (let p1 = read_loop_iteration first pending;
                 p2 = read_loop_iteration second (snd p1)
             in (fst p1 @ fst p2, snd p2) = read_loop_iteration (first @ second) pending)"
proof -
  let ?f = "\<lparr>can_id = uint idl OR push_bit 8 (uint idh), dlc = int L,
             data = payload, is_extended = False\<rparr>"
  have whole: "process_buffer (first @ second) = ([?f], [])"
    unfolding split
    using process_buffer_data_frame [OF hi lo len, of idl idh "[]"]
    by (simp add: process_buffer_Nil)
  have two: "(fst (process_buffer (b @ first)) @
              fst (process_buffer (snd (process_buffer (b @ first)) @ second)),
              snd (process_buffer (snd (process_buffer (b @ first)) @ second))) =
             process_buffer (b @ first @ second)" for b
    using process_buffer_append [of "b @ first" second] by simp
  show ?thesis
    unfolding Let_def read_loop_iteration_def
    using two [of "[]"] two [of pending] whole by simp
qed

theorem C4_split_delivery_witness:
  "drop_bit 4 (uint (0xC8 :: byte)) = 0x0C \<and> uint (0xC8 :: byte) AND 0x0F = int 8 \<and>
   length [1, 2, 3, 4, 5, 6, 7, 8 :: byte] = 8 \<and>
   [0xAA, 0xC8, 0x23] @ [0x01, 1, 2, 3, 4, 5, 6, 7, 8, 0x55] =
     [0xAA, 0xC8, 0x23, 0x01] @ [1, 2, 3, 4, 5, 6, 7, 8 :: byte] @ [0x55] \<and>
   (fst (read_loop_iteration [0xAA, 0xC8, 0x23] []) @
    fst (read_loop_iteration [0x01, 1, 2, 3, 4, 5, 6, 7, 8, 0x55]
          (snd (read_loop_iteration [0xAA, 0xC8, 0x23] []))),
    snd (read_loop_iteration [0x01, 1, 2, 3, 4, 5, 6, 7, 8, 0x55]
          (snd (read_loop_iteration [0xAA, 0xC8, 0x23] [])))) =
   ([\<lparr>can_id = 0x123, dlc = 8, data = [1, 2, 3, 4, 5, 6, 7, 8], is_extended = False\<rparr>], [])"
proof -
  have hi: "drop_bit 4 (uint (0xC8 :: byte)) = 0x0C" by (simp add: drop_bit_eq_div)
  have lo: "uint (0xC8 :: byte) AND 0x0F = int 8" by simp
  have len: "length [1, 2, 3, 4, 5, 6, 7, 8 :: byte] = 8" by simp
  have split: "[0xAA, 0xC8, 0x23] @ [0x01, 1, 2, 3, 4, 5, 6, 7, 8, 0x55] =
     [0xAA, 0xC8, 0x23, 0x01] @ [1, 2, 3, 4, 5, 6, 7, 8 :: byte] @ [0x55]" by simp
  have id: "uint (0x23 :: byte) OR push_bit 8 (uint (0x01 :: byte)) = 0x123"
    by (simp add: push_bit_eq_mult)
  note t = C4_split_delivery [OF hi lo len split, of "[]", unfolded Let_def id]
  from t have "(fst (read_loop_iteration [0xAA, 0xC8, 0x23] []) @
    fst (read_loop_iteration [0x01, 1, 2, 3, 4, 5, 6, 7, 8, 0x55]
          (snd (read_loop_iteration [0xAA, 0xC8, 0x23] []))),
    snd (read_loop_iteration [0x01, 1, 2, 3, 4, 5, 6, 7, 8, 0x55]
          (snd (read_loop_iteration [0xAA, 0xC8, 0x23] [])))) =
   ([\<lparr>can_id = 0x123, dlc = int 8, data = [1, 2, 3, 4, 5, 6, 7, 8], is_extended = False\<rparr>], [])"
    by (rule conjunct1)
  then show ?thesis using hi lo by simp
qed

text \<open>
  Claim C5. On a buffer that holds a truncated frame (a lone \<open>0xAA\<close>; or \<open>0xAA\<close> and the
  type byte of a data frame, with fewer than length + 5 bytes in the buffer; or \<open>0xAA 0x55\<close>
  with fewer than 20 bytes in the buffer), a call of \<open>_process_buffer\<close> emits no frame and
  leaves the buffer as it was.
\<close>

theorem C5_truncated_frame_retained:
  "truncated buffer \<Longrightarrow> process_buffer buffer = ([], buffer)"
  using truncated_Break [of buffer] by (simp add: process_buffer_Break)

theorem C5_truncated_frame_retained_witness:
  "truncated [0xAA] \<and> process_buffer [0xAA] = ([], [0xAA]) \<and>
   truncated [0xAA, 0xC8, 0x23, 0x01, 1, 2, 3] \<and>
   process_buffer [0xAA, 0xC8, 0x23, 0x01, 1, 2, 3] = ([], [0xAA, 0xC8, 0x23, 0x01, 1, 2, 3]) \<and>
   truncated [0xAA, 0x55, 0x12] \<and>
   process_buffer [0xAA, 0x55, 0x12] = ([], [0xAA, 0x55, 0x12])"
proof -
  have a: "truncated [0xAA]" by (simp add: truncated_def)
  have b: "truncated [0xAA, 0xC8, 0x23, 0x01, 1, 2, 3]"
    by (simp add: truncated_def drop_bit_eq_div)
  have c: "truncated [0xAA, 0x55, 0x12]" by (simp add: truncated_def)
  show ?thesis
    using a b c C5_truncated_frame_retained [OF a] C5_truncated_frame_retained [OF b]
      C5_truncated_frame_retained [OF c]
    by simp
qed

text \<open>
  Claim C6. The bytes \<open>AA C8 23 01 01 02 03 04 05 06 07 08 55\<close> decode to one frame with
  identifier \<open>0x123\<close>, length 8, payload 1 to 8 and \<open>is_extended = False\<close>. With the type
  byte \<open>0xE8\<close> in place of \<open>0xC8\<close> the high nibble of the type byte is \<open>0xE\<close>, not
  \<open>0xC\<close>: the test \<open>(self.buffer[1] >> 4) == 0x0C\<close> fails, all 13 bytes are discarded
  one at a time and no frame is emitted.
\<close>

theorem C6_end_to_end:
  "process_buffer [0xAA, 0xC8, 0x23, 0x01, 1, 2, 3, 4, 5, 6, 7, 8, 0x55] =
     ([\<lparr>can_id = 0x123, dlc = 8, data = [1, 2, 3, 4, 5, 6, 7, 8], is_extended = False\<rparr>], []) \<and>
   process_buffer [0xAA, 0xE8, 0x23, 0x01, 1, 2, 3, 4, 5, 6, 7, 8, 0x55] = ([], []) \<and>
   iterations [0xAA, 0xE8, 0x23, 0x01, 1, 2, 3, 4, 5, 6, 7, 8, 0x55] = 13"
proof -
  have hi: "drop_bit 4 (uint (0xC8 :: byte)) = 0x0C" by (simp add: drop_bit_eq_div)
  have lo: "uint (0xC8 :: byte) AND 0x0F = int 8" by simp
  have len: "length [1, 2, 3, 4, 5, 6, 7, 8 :: byte] = 8" by simp
  have id: "uint (0x23 :: byte) OR push_bit 8 (uint (0x01 :: byte)) = 0x123"
    by (simp add: push_bit_eq_mult)
  have std: "process_buffer [0xAA, 0xC8, 0x23, 0x01, 1, 2, 3, 4, 5, 6, 7, 8, 0x55] =
     ([\<lparr>can_id = 0x123, dlc = 8, data = [1, 2, 3, 4, 5, 6, 7, 8], is_extended = False\<rparr>], [])"
    using process_buffer_data_frame [OF hi lo len, of "0x23" "0x01" "[]"] id
    by (simp add: process_buffer_Nil)
  have e8: "drop_bit 4 (uint (0xE8 :: byte)) = (0x0E :: int)" by (simp add: drop_bit_eq_div)
  have step: "loop_body [0xAA, 0xE8, 0x23, 0x01, 1, 2, 3, 4, 5, 6, 7, 8, 0x55] =
                Continue [] [0xE8, 0x23, 0x01, 1, 2, 3, 4, 5, 6, 7, 8, 0x55]"
    by (simp add: loop_body_def e8)
  have noaa: "0xAA \<notin> set [0xE8, 0x23, 0x01, 1, 2, 3, 4, 5, 6, 7, 8, 0x55 :: byte]" by simp
  have ne: "[0xAA, 0xE8, 0x23, 0x01, 1, 2, 3, 4, 5, 6, 7, 8, 0x55 :: byte] \<noteq> []" by simp
  have ext: "process_buffer [0xAA, 0xE8, 0x23, 0x01, 1, 2, 3, 4, 5, 6, 7, 8, 0x55] = ([], [])"
    using process_buffer_Continue [OF ne step] process_buffer_no_start [OF noaa] by simp
  have its: "iterations [0xAA, 0xE8, 0x23, 0x01, 1, 2, 3, 4, 5, 6, 7, 8, 0x55] = 13"
    using iterations_Continue [OF ne step] process_buffer_no_start [OF noaa] by simp
  from std ext its show ?thesis by blast
qed

text \<open>
  Claim C7. For every requested speed the initialisation command is the 20 bytes
  \<open>AA 55 12 code 01\<close>, nine \<open>00\<close>, \<open>01\<close>, four \<open>00\<close> and the checksum, which is the sum
  of the bytes at the indices 2 to 18 truncated to 8 bits; a speed that is not a key of
  \<open>speed_map\<close>, such as 777, gets the code of 500000, which is \<open>0x03\<close>.
\<close>

theorem C7_init_command:
  "init_adapter_cmd s =
     [0xAA, 0x55, 0x12, word_of_int (speed_byte s), 0x01, 0, 0, 0, 0, 0, 0, 0, 0, 0, 0x01,
      0, 0, 0, 0, word_of_int (generate_checksum (take 17 (drop 2 (init_adapter_cmd s))))] \<and>
   length (init_adapter_cmd s) = 20 \<and>
   uint (init_adapter_cmd s ! 3) = speed_byte s \<and>
   uint (init_adapter_cmd s ! 19) =
     sum_list (map uint (take 17 (drop 2 (init_adapter_cmd s)))) AND 0xFF \<and>
   (speed_map s = None \<longrightarrow> speed_byte s = speed_byte 500000) \<and>
   speed_map 777 = None \<and> speed_byte 777 = speed_byte 500000 \<and> speed_byte 500000 = 0x03"
proof -
  have body: "take 17 (drop 2 (init_adapter_cmd s)) =
        [0x12, word_of_int (speed_byte s), 0x01, 0, 0, 0, 0, 0, 0, 0, 0, 0, 0x01, 0, 0, 0, 0]"
    by (simp add: init_adapter_cmd_bytes)
  have ck: "generate_checksum (take 17 (drop 2 (init_adapter_cmd s))) = speed_byte s + 0x14"
    unfolding body by (rule checksum_of_body)
  have a: "init_adapter_cmd s =
     [0xAA, 0x55, 0x12, word_of_int (speed_byte s), 0x01, 0, 0, 0, 0, 0, 0, 0, 0, 0, 0x01,
      0, 0, 0, 0, word_of_int (generate_checksum (take 17 (drop 2 (init_adapter_cmd s))))]"
    unfolding ck by (rule init_adapter_cmd_bytes)
  have b: "length (init_adapter_cmd s) = 20" by (simp add: init_adapter_cmd_bytes)
  have c: "uint (init_adapter_cmd s ! 3) = speed_byte s"
    by (simp add: init_adapter_cmd_bytes uint_speed_byte)
  have "init_adapter_cmd s ! 19 = word_of_int (speed_byte s + 0x14)"
    unfolding init_adapter_cmd_bytes by simp
  then have "uint (init_adapter_cmd s ! 19) = speed_byte s + 0x14"
    by (simp only: uint_checksum_byte)
  then have d: "uint (init_adapter_cmd s ! 19) =
     sum_list (map uint (take 17 (drop 2 (init_adapter_cmd s)))) AND 0xFF"
    using ck by (simp add: generate_checksum_def)
  have e: "speed_map s = None \<longrightarrow> speed_byte s = speed_byte 500000"
    by (simp add: speed_byte_def speed_map_def)
  have f: "speed_map 777 = None" "speed_byte 777 = speed_byte 500000" "speed_byte 500000 = 0x03"
    by (simp_all add: speed_byte_def speed_map_def)
  from a b c d e f show ?thesis by blast
qed

theorem C7_init_command_witness:
  "speed_map 777 = None \<and> speed_byte 777 = speed_byte 500000 \<and>
   init_adapter_cmd 777 =
     [0xAA, 0x55, 0x12, 0x03, 0x01, 0, 0, 0, 0, 0, 0, 0, 0, 0, 0x01, 0, 0, 0, 0, 0x17]"
proof -
  have n: "speed_map 777 = None" by (simp add: speed_map_def)
  note t = C7_init_command [of 777]
  from t n have e: "speed_byte 777 = speed_byte 500000" by blast
  from t have v: "speed_byte 500000 = 0x03" by blast
  from t have l: "init_adapter_cmd 777 =
     [0xAA, 0x55, 0x12, word_of_int (speed_byte 777), 0x01, 0, 0, 0, 0, 0, 0, 0, 0, 0, 0x01,
      0, 0, 0, 0, word_of_int (generate_checksum (take 17 (drop 2 (init_adapter_cmd 777))))]"
    by blast
  have ck: "generate_checksum (take 17 (drop 2 (init_adapter_cmd 777))) = 0x17"
    by (subst l) (simp add: generate_checksum_def e v)
  have "init_adapter_cmd 777 =
     [0xAA, 0x55, 0x12, 0x03, 0x01, 0, 0, 0, 0, 0, 0, 0, 0, 0, 0x01, 0, 0, 0, 0, 0x17]"
    by (subst l) (simp add: ck e v)
  with n e show ?thesis by blast
qed

text \<open>
  Claim C10. A call of \<open>_process_buffer\<close> terminates. An iteration of the loop that does
  not leave the loop removes at least one byte from the buffer (one byte, or the 20 bytes
  of a command frame, or the length + 5 bytes of a data frame); so the loop body is executed
  at most once for each byte of the initial buffer, and the loop, run with a bound of one
  test of its condition for each byte of the initial buffer plus one, is left before the
  bound is reached, with the result of \<open>process_buffer\<close>.
\<close>

theorem C10_pass_terminates:
  "(buffer \<noteq> [] \<and> loop_body buffer = Continue fs buffer' \<longrightarrow>
      length buffer' < length buffer \<and>
      (buffer' = drop 1 buffer \<or> (20 \<le> length buffer \<and> buffer' = drop 20 buffer) \<or>
       (data_frame_span buffer \<and> buffer' = drop (span_len buffer) buffer))) \<and>
   iterations buffer \<le> length buffer + 1 \<and>
   run_loop (length buffer + 1) buffer = Some (process_buffer buffer)"
  using loop_body_shrinks [of buffer fs buffer'] loop_body_discards [of buffer fs buffer']
    iterations_le_length [of buffer] run_loop_enough [of buffer "length buffer + 1"]
  by simp

theorem C10_pass_terminates_witness:
  "[0x7F, 0xAA :: byte] \<noteq> [] \<and> loop_body [0x7F, 0xAA] = Continue [] [0xAA] \<and>
   length [0xAA :: byte] < length [0x7F, 0xAA :: byte] \<and>
   iterations [0x7F, 0xAA] \<le> 3 \<and>
   run_loop 3 [0x7F, 0xAA] = Some (process_buffer [0x7F, 0xAA])"
proof -
  have s: "loop_body [0x7F, 0xAA] = Continue [] [0xAA]" by (simp add: loop_body_def)
  have n: "[0x7F, 0xAA :: byte] \<noteq> []" by simp
  have l: "length [0x7F, 0xAA :: byte] + 1 = 3" by simp
  note t = C10_pass_terminates [of "[0x7F, 0xAA]" "[]" "[0xAA]", unfolded l]
  from t n s have a: "length [0xAA :: byte] < length [0x7F, 0xAA :: byte]" by blast
  from t have b: "iterations [0x7F, 0xAA] \<le> 3" by blast
  from t have c: "run_loop 3 [0x7F, 0xAA] = Some (process_buffer [0x7F, 0xAA])" by blast
  from n s a b c show ?thesis by blast
qed

section \<open>Session\<close>

text \<open>
  The class \<open>CANUSBBackend\<close> with explicit state. The exceptions of the model are the ones
  that the calls of \<open>connect\<close> and \<open>disconnect\<close> can raise; each of them is a subclass
  of \<open>Exception\<close>, so the handler \<open>except Exception\<close> of \<open>connect\<close> catches each of them.
\<close>

datatype exn = SerialException | ValueError | AttributeError | RuntimeError

text \<open>
  The serial port object held in \<open>self.ser\<close>: whether it is open, and what has been
  written to it.
\<close>

record serial_port =
  is_open :: bool
  written :: "byte list list"

text \<open>
  The thread object held in \<open>self.read_thread\<close>. What the thread does once started (the
  loop \<open>_read_loop\<close>, which runs beside the caller) is not part of this model: the model
  records that the thread exists and whether it was started.
\<close>

record thread =
  started :: bool

text \<open>A registered callback is named by a number.\<close>

type_synonym callback = nat

record backend =
  port :: string
  baudrate :: int
  can_speed :: int
  ser :: "serial_port option"
  running :: bool
  read_thread :: "thread option"
  on_frame_received :: "callback list"
  buffer :: "byte list"

text \<open>
  What the serial line answers during one call of \<open>connect\<close>: the constructor
  \<open>serial.Serial(...)\<close> returns a port or raises, and \<open>write\<close> returns or raises; and
  what the interpreter answers when the thread is started: \<open>Thread.start\<close> returns, or
  raises \<open>RuntimeError\<close> when no new thread can be had. Creating the thread object and
  closing a port are taken to succeed.
\<close>

record env =
  open_result :: "exn + serial_port"
  write_result :: "exn option"
  start_result :: "exn option"

text \<open>\<open>__init__\<close> and \<open>add_callback\<close>.\<close>

definition init :: "string \<Rightarrow> int \<Rightarrow> int \<Rightarrow> backend" where
  "init p b s =
     \<lparr>port = p, baudrate = b, can_speed = s, ser = None, running = False,
      read_thread = None, on_frame_received = [], buffer = []\<rparr>"

definition add_callback :: "callback \<Rightarrow> backend \<Rightarrow> backend" where
  "add_callback cb self = self\<lparr>on_frame_received := on_frame_received self @ [cb]\<rparr>"

text \<open>
  \<open>self.ser.write(cmd)\<close>, and \<open>_init_adapter\<close>, which sends the initialisation command.
  A method call on \<open>None\<close> raises \<open>AttributeError\<close>.
\<close>

definition serial_write :: "env \<Rightarrow> serial_port option \<Rightarrow> byte list \<Rightarrow> exn + serial_port" where
  "serial_write e s bytes =
     (case s of
        None \<Rightarrow> Inl AttributeError
      | Some h \<Rightarrow>
          (case write_result e of
             Some x \<Rightarrow> Inl x
           | None \<Rightarrow> Inr (h\<lparr>written := written h @ [bytes]\<rparr>)))"

definition init_adapter :: "env \<Rightarrow> backend \<Rightarrow> exn + backend" where
  "init_adapter e self =
     (case serial_write e (ser self) (init_adapter_cmd (can_speed self)) of
        Inl x \<Rightarrow> Inl x
      | Inr h \<Rightarrow> Inr (self\<lparr>ser := Some h\<rparr>))"

text \<open>
  \<open>self.read_thread.start()\<close>: a thread can be started once, and the start itself can
  fail.
\<close>

definition thread_start :: "env \<Rightarrow> thread option \<Rightarrow> exn + thread" where
  "thread_start e t =
     (case t of
        None \<Rightarrow> Inl AttributeError
      | Some th \<Rightarrow>
          if started th then Inl RuntimeError
          else (case start_result e of
                  Some x \<Rightarrow> Inl x
                | None \<Rightarrow> Inr (th\<lparr>started := True\<rparr>)))"

text \<open>
  \<open>connect\<close>: every statement of the \<open>try\<close> block changes \<open>self\<close> in turn; an exception
  leaves the block with the changes made so far and the result \<open>False\<close>. The running flag
  and the thread object are assigned before the thread is started.
\<close>

definition connect :: "env \<Rightarrow> backend \<Rightarrow> bool \<times> backend" where
  "connect e self =
     (case open_result e of
        Inl x \<Rightarrow> (False, self)
      | Inr h \<Rightarrow>
          (let self1 = self\<lparr>ser := Some h\<rparr>
           in case init_adapter e self1 of
                Inl x \<Rightarrow> (False, self1)
              | Inr self2 \<Rightarrow>
                  (let self3 = self2\<lparr>running := True\<rparr>;
                       self4 = self3\<lparr>read_thread := Some \<lparr>started = False\<rparr>\<rparr>
                   in case thread_start e (read_thread self4) of
                        Inl x \<Rightarrow> (False, self4)
                      | Inr th \<Rightarrow> (True, self4\<lparr>read_thread := Some th\<rparr>))))"

text \<open>
  \<open>Thread.join\<close> raises \<open>RuntimeError\<close> on a thread that was never started.
  \<open>disconnect\<close>: \<open>if self.read_thread:\<close> and \<open>if self.ser:\<close> test that the attribute
  is not \<open>None\<close>.
\<close>

definition thread_join :: "thread option \<Rightarrow> exn + unit" where
  "thread_join t =
     (case t of
        None \<Rightarrow> Inl AttributeError
      | Some th \<Rightarrow> if started th then Inr () else Inl RuntimeError)"

definition serial_close :: "serial_port option \<Rightarrow> exn + serial_port" where
  "serial_close s =
     (case s of
        None \<Rightarrow> Inl AttributeError
      | Some h \<Rightarrow> Inr (h\<lparr>is_open := False\<rparr>))"

definition disconnect :: "backend \<Rightarrow> exn + backend" where
  "disconnect self =
     (let self1 = self\<lparr>running := False\<rparr>
      in case (if read_thread self1 \<noteq> None then thread_join (read_thread self1) else Inr ()) of
           Inl x \<Rightarrow> Inl x
         | Inr u \<Rightarrow>
             (if ser self1 \<noteq> None then
                (case serial_close (ser self1) of
                   Inl x \<Rightarrow> Inl x
                 | Inr h \<Rightarrow> Inr (self1\<lparr>ser := Some h\<rparr>))
              else Inr self1))"

lemma connect_open_fails: "open_result e = Inl x \<Longrightarrow> connect e self = (False, self)"
  by (simp add: connect_def)

text \<open>
  A call of \<open>connect\<close> that fails while the thread start does not fail (it failed in
  opening the port or in writing the command) leaves the thread and the running flag as
  they were.
\<close>

lemma connect_transport_failure:
  "connect e self = (False, self') \<Longrightarrow> start_result e = None \<Longrightarrow>
   read_thread self' = read_thread self \<and> running self' = running self"
  by (auto simp: connect_def init_adapter_def thread_start_def Let_def split: sum.splits)

text \<open>Without a thread, \<open>disconnect\<close> closes the port if there is one, and returns.\<close>

lemma disconnect_no_thread:
  "read_thread self = None \<Longrightarrow>
   disconnect self =
     Inr (self\<lparr>running := False, ser := map_option (\<lambda>h. h\<lparr>is_open := False\<rparr>) (ser self)\<rparr>)"
  by (cases "ser self") (simp_all add: disconnect_def Let_def serial_close_def)

section \<open>The claims about the session\<close>

text \<open>
  Claim C8. When opening the transport fails, that is when \<open>serial.Serial(...)\<close> raises,
  \<open>connect\<close> returns \<open>False\<close> (its result is a value: the exception is caught) and the
  session is exactly as it was before the call: the running flag, the thread and the port
  attribute are unchanged. On a fresh session the running flag is therefore still false, no
  thread exists and no port is held.
\<close>

theorem C8_open_failure:
  assumes "open_result e = Inl x"
  shows "fst (connect e self) = False \<and> snd (connect e self) = self \<and>
         running (snd (connect e self)) = running self \<and>
         read_thread (snd (connect e self)) = read_thread self \<and>
         ser (snd (connect e self)) = ser self \<and>
         snd (connect e (init p b s)) = init p b s \<and>
         \<not> running (snd (connect e (init p b s))) \<and>
         read_thread (snd (connect e (init p b s))) = None \<and>
         ser (snd (connect e (init p b s))) = None"
  using connect_open_fails [OF assms, of self] connect_open_fails [OF assms, of "init p b s"]
  by (simp add: init_def)

theorem C8_open_failure_witness:
  "open_result \<lparr>open_result = Inl SerialException, write_result = None, start_result = None\<rparr> = Inl SerialException \<and>
   connect \<lparr>open_result = Inl SerialException, write_result = None, start_result = None\<rparr>
     (init ''/dev/ttyUSB0'' 2000000 500000) =
     (False, init ''/dev/ttyUSB0'' 2000000 500000) \<and>
   \<not> running (init ''/dev/ttyUSB0'' 2000000 500000) \<and>
   read_thread (init ''/dev/ttyUSB0'' 2000000 500000) = None"
proof -
  let ?e = "\<lparr>open_result = Inl SerialException, write_result = None, start_result = None\<rparr>"
  let ?s = "init ''/dev/ttyUSB0'' 2000000 500000"
  have h: "open_result ?e = Inl SerialException" by simp
  note t = C8_open_failure [OF h, of ?s "''/dev/ttyUSB0''" 2000000 500000]
  from t have a: "fst (connect ?e ?s) = False" and b: "snd (connect ?e ?s) = ?s" by blast+
  from a b have c: "connect ?e ?s = (False, ?s)" by (simp add: prod_eq_iff)
  from t b have d: "\<not> running ?s" and f: "read_thread ?s = None" by auto
  from h c d f show ?thesis by blast
qed

text \<open>
  Claim C9. \<open>disconnect\<close> is to return without raising in every state of a session in
  which no call of \<open>connect\<close> has succeeded. It does so on a fresh session, where both
  calls are skipped. It does not after a call of \<open>connect\<close> that failed in starting the
  thread: on a fresh session whose port opens and takes the command, and whose thread
  start raises \<open>RuntimeError\<close>, \<open>connect\<close> returns \<open>False\<close> and leaves the running flag
  set, the port open and a thread that was never started; \<open>disconnect\<close> then calls
  \<open>join\<close> on that thread, which raises \<open>RuntimeError\<close>, and the port is not closed.
\<close>

theorem C9_disconnect_after_failed_start:
  "connect \<lparr>open_result = Inr \<lparr>is_open = True, written = []\<rparr>, write_result = None,
             start_result = Some RuntimeError\<rparr>
     (init ''/dev/ttyUSB0'' 2000000 500000) =
     (False,
      \<lparr>port = ''/dev/ttyUSB0'', baudrate = 2000000, can_speed = 500000,
       ser = Some \<lparr>is_open = True, written = [init_adapter_cmd 500000]\<rparr>,
       running = True, read_thread = Some \<lparr>started = False\<rparr>,
       on_frame_received = [], buffer = []\<rparr>) \<and>
   disconnect
     \<lparr>port = ''/dev/ttyUSB0'', baudrate = 2000000, can_speed = 500000,
      ser = Some \<lparr>is_open = True, written = [init_adapter_cmd 500000]\<rparr>,
      running = True, read_thread = Some \<lparr>started = False\<rparr>,
      on_frame_received = [], buffer = []\<rparr> = Inl RuntimeError \<and>
   disconnect (init ''/dev/ttyUSB0'' 2000000 500000) = Inr (init ''/dev/ttyUSB0'' 2000000 500000)"
proof -
  have c: "connect \<lparr>open_result = Inr \<lparr>is_open = True, written = []\<rparr>, write_result = None,
             start_result = Some RuntimeError\<rparr>
     (init ''/dev/ttyUSB0'' 2000000 500000) =
     (False,
      \<lparr>port = ''/dev/ttyUSB0'', baudrate = 2000000, can_speed = 500000,
       ser = Some \<lparr>is_open = True, written = [init_adapter_cmd 500000]\<rparr>,
       running = True, read_thread = Some \<lparr>started = False\<rparr>,
       on_frame_received = [], buffer = []\<rparr>)"
    by (simp add: connect_def init_adapter_def serial_write_def thread_start_def Let_def init_def)
  have d: "disconnect
     \<lparr>port = ''/dev/ttyUSB0'', baudrate = 2000000, can_speed = 500000,
      ser = Some \<lparr>is_open = True, written = [init_adapter_cmd 500000]\<rparr>,
      running = True, read_thread = Some \<lparr>started = False\<rparr>,
      on_frame_received = [], buffer = []\<rparr> = Inl RuntimeError"
    by (simp add: disconnect_def thread_join_def Let_def)
  have f: "disconnect (init ''/dev/ttyUSB0'' 2000000 500000) =
           Inr (init ''/dev/ttyUSB0'' 2000000 500000)"
    using disconnect_no_thread [of "init ''/dev/ttyUSB0'' 2000000 500000"]
    by (simp add: init_def)
  from c d f show ?thesis by blast
qed

end
